theory Spec2Isabelle
  imports Main
begin

section \<open>Numbers and dates\<close>

text \<open>
  A \<^verbatim>\<open>Date\<close> is modelled by its time value, the result of \<^verbatim>\<open>getTime()\<close>: a whole
  number of milliseconds, or NaN for an invalid date (\<open>None\<close>). No code of the repository
  mutates a \<^verbatim>\<open>Date\<close>, so the object and its time value are identified. Time values are
  integers of magnitude at most 8.64e15; the only arithmetic the code does on them is one
  subtraction compared with 86400000, whose outcome is the same in double precision and
  in exact integer arithmetic, so \<open>int\<close> is used.

  The comparison operators of JavaScript are false as soon as one operand is NaN, also
  \<^verbatim>\<open>===\<close>; \<^verbatim>\<open>!==\<close> is its negation.
\<close>

type_synonym number = "int option"
type_synonym Date = "int option"

definition getTime :: "Date \<Rightarrow> number" where
  "getTime d = d"

definition isNaN :: "number \<Rightarrow> bool" where
  "isNaN x = (x = None)"

fun js_lt :: "number \<Rightarrow> number \<Rightarrow> bool" where
  "js_lt (Some a) (Some b) = (a < b)"
| "js_lt _ _ = False"

fun js_gt :: "number \<Rightarrow> number \<Rightarrow> bool" where
  "js_gt (Some a) (Some b) = (a > b)"
| "js_gt _ _ = False"

fun js_le :: "number \<Rightarrow> number \<Rightarrow> bool" where
  "js_le (Some a) (Some b) = (a \<le> b)"
| "js_le _ _ = False"

fun js_ge :: "number \<Rightarrow> number \<Rightarrow> bool" where
  "js_ge (Some a) (Some b) = (a \<ge> b)"
| "js_ge _ _ = False"

fun js_eq :: "number \<Rightarrow> number \<Rightarrow> bool" where
  "js_eq (Some a) (Some b) = (a = b)"
| "js_eq _ _ = False"

definition js_ne :: "number \<Rightarrow> number \<Rightarrow> bool" where
  "js_ne x y = (\<not> js_eq x y)"

fun js_sub :: "number \<Rightarrow> number \<Rightarrow> number" where
  "js_sub (Some a) (Some b) = Some (a - b)"
| "js_sub _ _ = None"

section \<open>TimeSlot\<close>

text \<open>
  A \<^verbatim>\<open>TimeSlot\<close> object has the two fields of the class and, as every JavaScript object,
  an identity: \<open>oid\<close> is the address the allocator gave it. Two objects built by two
  \<^verbatim>\<open>new TimeSlot(...)\<close> expressions have different addresses, whatever their fields.
  No method of the repository assigns to \<^verbatim>\<open>start\<close> or \<^verbatim>\<open>end\<close> after the constructor,
  so an object is the value of this record, and \<^verbatim>\<open>a === b\<close> on two objects is equality
  of the records.

  The field \<^verbatim>\<open>end\<close> is written \<open>end'\<close>, and the methods \<^verbatim>\<open>lessThan\<close> and \<^verbatim>\<open>greaterThan\<close>
  carry the suffix \<open>_slot\<close>: the plain names are taken in Isabelle/HOL.
\<close>

record TimeSlot =
  oid :: nat
  start :: Date
  end' :: Date

text \<open>\<^verbatim>\<open>throw new Error(msg)\<close>: the exception carries its message.\<close>

datatype error = Error string

text \<open>The constructor; \<open>a\<close> is the address of the object being constructed.\<close>

definition TimeSlot_new :: "nat \<Rightarrow> Date \<Rightarrow> Date \<Rightarrow> error + TimeSlot" where
  "TimeSlot_new a s e =
     (if isNaN (getTime s) then Inl (Error ''The start time is not valid.'')
      else if isNaN (getTime e) then Inl (Error ''The end time is not valid.'')
      else if js_ge (getTime s) (getTime e)
        then Inl (Error ''The start time must be before the end time.'')
      else if js_gt (js_sub (getTime e) (getTime s)) (Some (1000 * 60 * 60 * 24))
        then Inl (Error ''The time slot cannot be longer than 24 hours.'')
      else Inr \<lparr>oid = a, start = s, end' = e\<rparr>)"

definition equals :: "TimeSlot \<Rightarrow> TimeSlot \<Rightarrow> bool" where
  "equals this timeSlot =
     (js_eq (getTime (start this)) (getTime (start timeSlot))
      \<and> js_eq (getTime (end' this)) (getTime (end' timeSlot)))"

definition notEquals :: "TimeSlot \<Rightarrow> TimeSlot \<Rightarrow> bool" where
  "notEquals this timeSlot =
     (js_ne (getTime (start this)) (getTime (start timeSlot))
      \<or> js_ne (getTime (end' this)) (getTime (end' timeSlot)))"

definition lessThan_slot :: "TimeSlot \<Rightarrow> TimeSlot \<Rightarrow> bool" where
  "lessThan_slot this timeSlot = js_lt (getTime (start this)) (getTime (start timeSlot))"

definition greaterThan_slot :: "TimeSlot \<Rightarrow> TimeSlot \<Rightarrow> bool" where
  "greaterThan_slot this timeSlot = js_gt (getTime (start this)) (getTime (start timeSlot))"

definition lessThanOrEqual :: "TimeSlot \<Rightarrow> TimeSlot \<Rightarrow> bool" where
  "lessThanOrEqual this timeSlot = js_le (getTime (start this)) (getTime (start timeSlot))"

definition greaterThanOrEqual :: "TimeSlot \<Rightarrow> TimeSlot \<Rightarrow> bool" where
  "greaterThanOrEqual this timeSlot = js_ge (getTime (start this)) (getTime (start timeSlot))"

definition contains :: "TimeSlot \<Rightarrow> Date \<Rightarrow> bool" where
  "contains this date =
     (js_ge (getTime date) (getTime (start this)) \<and> js_lt (getTime date) (getTime (end' this)))"

definition overlaps :: "TimeSlot \<Rightarrow> TimeSlot \<Rightarrow> bool" where
  "overlaps this timeSlot =
     (js_lt (getTime (start this)) (getTime (end' timeSlot))
      \<and> js_gt (getTime (end' this)) (getTime (start timeSlot)))"

section \<open>Schedule\<close>

text \<open>
  The schedule is one mutable array of references to \<^verbatim>\<open>TimeSlot\<close> objects. Every method
  takes the schedule and returns its result together with the schedule after the call.
  \<^verbatim>\<open>new Date()\<close> is the instant of the call, the parameter \<open>now\<close>: always a valid date.
\<close>

record Schedule =
  timeSlots :: "TimeSlot list"

definition Schedule_new :: Schedule where
  "Schedule_new = \<lparr>timeSlots = []\<rparr>"

text \<open>\<^verbatim>\<open>xs.splice(i, 0, x)\<close> and \<^verbatim>\<open>xs.splice(i, 1)\<close>, for \<open>i\<close> within the array.\<close>

definition splice_insert :: "nat \<Rightarrow> 'a \<Rightarrow> 'a list \<Rightarrow> 'a list" where
  "splice_insert i x xs = take i xs @ x # drop i xs"

definition splice_remove :: "nat \<Rightarrow> 'a list \<Rightarrow> 'a list" where
  "splice_remove i xs = take i xs @ drop (Suc i) xs"

text \<open>\<^verbatim>\<open>xs.indexOf(x)\<close>: the first index holding \<open>x\<close> under \<^verbatim>\<open>===\<close>, or -1.\<close>

fun indexOf :: "'a list \<Rightarrow> 'a \<Rightarrow> int" where
  "indexOf [] x = - 1"
| "indexOf (y # ys) x =
     (if y = x then 0
      else if indexOf ys x = - 1 then - 1
      else indexOf ys x + 1)"

text \<open>The first loop of \<^verbatim>\<open>addTimeSlot\<close>: true when it returns false from inside.\<close>

fun addTimeSlot_overlap :: "TimeSlot \<Rightarrow> TimeSlot list \<Rightarrow> bool" where
  "addTimeSlot_overlap timeSlot [] = False"
| "addTimeSlot_overlap timeSlot (slot # rest) =
     (if js_lt (getTime (start timeSlot)) (getTime (end' slot))
         \<and> js_gt (getTime (end' timeSlot)) (getTime (start slot))
      then True
      else addTimeSlot_overlap timeSlot rest)"

text \<open>The second loop, from index \<open>i\<close>, and the \<^verbatim>\<open>push\<close> after it.\<close>

function addTimeSlot_insert :: "nat \<Rightarrow> TimeSlot \<Rightarrow> TimeSlot list \<Rightarrow> TimeSlot list" where
  "addTimeSlot_insert i timeSlot ts =
     (if i < length ts then
        (if lessThan_slot timeSlot (ts ! i) then splice_insert i timeSlot ts
         else addTimeSlot_insert (Suc i) timeSlot ts)
      else ts @ [timeSlot])"
  by pat_completeness auto
termination
  by (relation "measure (\<lambda>(i, timeSlot, ts). length ts - i)") auto

definition addTimeSlot :: "int \<Rightarrow> TimeSlot \<Rightarrow> Schedule \<Rightarrow> bool \<times> Schedule" where
  "addTimeSlot now timeSlot this =
     (if js_lt (getTime (end' timeSlot)) (getTime (Some now)) then (False, this)
      else if addTimeSlot_overlap timeSlot (timeSlots this) then (False, this)
      else (True, this\<lparr>timeSlots := addTimeSlot_insert 0 timeSlot (timeSlots this)\<rparr>))"

definition removeTimeSlot :: "TimeSlot \<Rightarrow> Schedule \<Rightarrow> bool \<times> Schedule" where
  "removeTimeSlot timeSlot this =
     (if indexOf (timeSlots this) timeSlot = - 1 then (False, this)
      else (True, this\<lparr>timeSlots :=
              splice_remove (nat (indexOf (timeSlots this) timeSlot)) (timeSlots this)\<rparr>))"

fun isFree_loop :: "TimeSlot \<Rightarrow> TimeSlot list \<Rightarrow> bool" where
  "isFree_loop timeSlot [] = True"
| "isFree_loop timeSlot (slot # rest) =
     (if overlaps slot timeSlot then False else isFree_loop timeSlot rest)"

definition isFree :: "TimeSlot \<Rightarrow> Schedule \<Rightarrow> bool \<times> Schedule" where
  "isFree timeSlot this = (isFree_loop timeSlot (timeSlots this), this)"

text \<open>
  \<^verbatim>\<open>nextBusyTimeSlot\<close> evaluates \<^verbatim>\<open>new Date()\<close> inside the loop, once in every iteration, so
  the call reads the clock as many times as it inspects slots. \<open>clock k\<close> is the value of
  the reading number \<open>k\<close> of the call, the first being number 0; the loop inspects the
  slot at index \<open>k\<close> against the reading number \<open>k\<close>. The other methods read the clock once.
\<close>

fun nextBusyTimeSlot_loop :: "(nat \<Rightarrow> int) \<Rightarrow> nat \<Rightarrow> TimeSlot list \<Rightarrow> TimeSlot option" where
  "nextBusyTimeSlot_loop clock k [] = None"
| "nextBusyTimeSlot_loop clock k (slot # rest) =
     (if js_gt (getTime (start slot)) (getTime (Some (clock k))) then Some slot
      else nextBusyTimeSlot_loop clock (Suc k) rest)"

definition nextBusyTimeSlot :: "(nat \<Rightarrow> int) \<Rightarrow> Schedule \<Rightarrow> TimeSlot option \<times> Schedule" where
  "nextBusyTimeSlot clock this = (nextBusyTimeSlot_loop clock 0 (timeSlots this), this)"

text \<open>
  The loop of \<^verbatim>\<open>nextFreeTimeSlot\<close> from index \<open>i\<close>. \<open>a\<close> is the address the new object
  gets. An exception of the constructor leaves the method: \<open>Inl\<close>. \<^verbatim>\<open>null\<close> is \<open>None\<close>.
  \<^verbatim>\<open>timeSlot.start > now\<close> compares two dates by their time values.
\<close>

function nextFreeTimeSlot_loop ::
  "nat \<Rightarrow> nat \<Rightarrow> Date \<Rightarrow> TimeSlot list \<Rightarrow> error + TimeSlot option" where
  "nextFreeTimeSlot_loop i a now ts =
     (if i < length ts then
        (if js_gt (start (ts ! i)) now then
           (if i = 0 then
              (case TimeSlot_new a now (start (ts ! i)) of
                 Inl err \<Rightarrow> Inl err | Inr nextTimeSlot \<Rightarrow> Inr (Some nextTimeSlot))
            else
              (case TimeSlot_new a (end' (ts ! (i - 1))) (start (ts ! i)) of
                 Inl err \<Rightarrow> Inl err | Inr nextTimeSlot \<Rightarrow> Inr (Some nextTimeSlot)))
         else nextFreeTimeSlot_loop (Suc i) a now ts)
      else Inr None)"
  by pat_completeness auto
termination
  by (relation "measure (\<lambda>(i, a, now, ts). length ts - i)") auto

definition nextFreeTimeSlot ::
  "nat \<Rightarrow> int \<Rightarrow> Schedule \<Rightarrow> (error + TimeSlot option) \<times> Schedule" where
  "nextFreeTimeSlot a now this = (nextFreeTimeSlot_loop 0 a (Some now) (timeSlots this), this)"

fun isBusy_loop :: "Date \<Rightarrow> TimeSlot list \<Rightarrow> bool" where
  "isBusy_loop now [] = False"
| "isBusy_loop now (timeSlot # rest) =
     (if contains timeSlot now then True else isBusy_loop now rest)"

definition isBusy :: "int \<Rightarrow> Schedule \<Rightarrow> bool \<times> Schedule" where
  "isBusy now this = (isBusy_loop (Some now) (timeSlots this), this)"

section \<open>Well-formed slots, the invariant of a schedule, sequences of calls\<close>

text \<open>
  A well-formed \<^verbatim>\<open>TimeSlot\<close> is an object the constructor returns: building it again
  from its own fields, at its own address, succeeds and gives the object itself.
\<close>

definition wf_slot :: "TimeSlot \<Rightarrow> bool" where
  "wf_slot t = (TimeSlot_new (oid t) (start t) (end' t) = Inr t)"

text \<open>Strictly ascending by \<^verbatim>\<open>start\<close>; no two elements overlap, in either order.\<close>

definition ascending :: "TimeSlot list \<Rightarrow> bool" where
  "ascending ts = sorted_wrt (\<lambda>x y. js_lt (getTime (start x)) (getTime (start y))) ts"

definition non_overlapping :: "TimeSlot list \<Rightarrow> bool" where
  "non_overlapping ts = sorted_wrt (\<lambda>x y. \<not> overlaps x y \<and> \<not> overlaps y x) ts"

text \<open>
  A call of one of the two mutating methods; an \<^verbatim>\<open>addTimeSlot\<close> call carries the instant
  at which it is made.
\<close>

datatype call = AddTimeSlot int TimeSlot | RemoveTimeSlot TimeSlot

fun call_slot :: "call \<Rightarrow> TimeSlot" where
  "call_slot (AddTimeSlot now t) = t"
| "call_slot (RemoveTimeSlot t) = t"

fun do_call :: "call \<Rightarrow> Schedule \<Rightarrow> Schedule" where
  "do_call (AddTimeSlot now t) sched = snd (addTimeSlot now t sched)"
| "do_call (RemoveTimeSlot t) sched = snd (removeTimeSlot t sched)"

fun run :: "call list \<Rightarrow> Schedule \<Rightarrow> Schedule" where
  "run [] sched = sched"
| "run (c # cs) sched = run cs (do_call c sched)"

text \<open>
  The invariant of a schedule: it holds well-formed slots, strictly ascending by
  \<^verbatim>\<open>start\<close>, no two of them overlapping.
\<close>

definition schedule_inv :: "Schedule \<Rightarrow> bool" where
  "schedule_inv sched =
     ((\<forall>e\<in>set (timeSlots sched). wf_slot e)
      \<and> ascending (timeSlots sched) \<and> non_overlapping (timeSlots sched))"

section \<open>The loops and the array operations in closed form\<close>

lemma addTimeSlot_overlap_iff:
  "addTimeSlot_overlap t ts \<longleftrightarrow>
     (\<exists>e\<in>set ts. js_lt (start t) (end' e) \<and> js_gt (end' t) (start e))"
  by (induction ts) (auto simp: getTime_def)

lemma addTimeSlot_insert_eq:
  "i \<le> length ts \<Longrightarrow>
   addTimeSlot_insert i t ts =
     take i ts @ takeWhile (\<lambda>e. \<not> lessThan_slot t e) (drop i ts)
       @ t # dropWhile (\<lambda>e. \<not> lessThan_slot t e) (drop i ts)"
proof (induction i t ts rule: addTimeSlot_insert.induct)
  case (1 i t ts)
  show ?case
  proof (cases "i < length ts")
    case False
    with "1.prems" have "i = length ts" by simp
    then show ?thesis by simp
  next
    case inside: True
    then have d: "drop i ts = ts ! i # drop (Suc i) ts"
      by (simp add: Cons_nth_drop_Suc)
    show ?thesis
    proof (cases "lessThan_slot t (ts ! i)")
      case True
      with inside d show ?thesis by (simp add: splice_insert_def)
    next
      case False
      with inside have "addTimeSlot_insert i t ts = addTimeSlot_insert (Suc i) t ts"
        by simp
      also have "\<dots> = take (Suc i) ts @ takeWhile (\<lambda>e. \<not> lessThan_slot t e) (drop (Suc i) ts)
       @ t # dropWhile (\<lambda>e. \<not> lessThan_slot t e) (drop (Suc i) ts)"
        using "1.IH" inside False by simp
      finally show ?thesis using d False inside
        by (simp add: take_Suc_conv_app_nth)
    qed
  qed
qed

lemma indexOf_ge: "- 1 \<le> indexOf xs x"
  by (induction xs) auto

lemma indexOf_absent: "indexOf xs x = - 1 \<longleftrightarrow> x \<notin> set xs"
proof (induction xs)
  case Nil
  show ?case by simp
next
  case (Cons y ys)
  have "- 1 \<le> indexOf ys x" by (rule indexOf_ge)
  then have "indexOf ys x + 1 \<noteq> - 1" by arith
  with Cons show ?case by auto
qed

lemma indexOf_first:
  "x \<in> set xs \<Longrightarrow>
   nat (indexOf xs x) < length xs \<and> xs ! nat (indexOf xs x) = x
   \<and> (\<forall>j < nat (indexOf xs x). xs ! j \<noteq> x)"
proof (induction xs)
  case Nil
  then show ?case by simp
next
  case (Cons y ys)
  show ?case
  proof (cases "y = x")
    case True
    then show ?thesis by simp
  next
    case False
    with Cons.prems have mem: "x \<in> set ys" by simp
    then have ne: "indexOf ys x \<noteq> - 1" by (simp add: indexOf_absent)
    with indexOf_ge [of ys x] have nn: "0 \<le> indexOf ys x" by arith
    then have n: "nat (indexOf ys x + 1) = Suc (nat (indexOf ys x))" by arith
    from Cons.IH [OF mem] False ne n show ?thesis
      by (auto simp: nth_Cons split: nat.splits)
  qed
qed

lemma splice_remove_indexOf:
  "x \<in> set xs \<Longrightarrow> splice_remove (nat (indexOf xs x)) xs = remove1 x xs"
proof (induction xs)
  case Nil
  then show ?case by simp
next
  case (Cons y ys)
  show ?case
  proof (cases "y = x")
    case True
    then show ?thesis by (simp add: splice_remove_def)
  next
    case False
    with Cons.prems have mem: "x \<in> set ys" by simp
    then have ne: "indexOf ys x \<noteq> - 1" by (simp add: indexOf_absent)
    with indexOf_ge [of ys x] have nn: "0 \<le> indexOf ys x" by arith
    then have n: "nat (indexOf ys x + 1) = Suc (nat (indexOf ys x))" by arith
    from Cons.IH [OF mem] False ne n show ?thesis
      by (simp add: splice_remove_def)
  qed
qed

lemma wf_slotD:
  "wf_slot t \<Longrightarrow> \<exists>a b. start t = Some a \<and> end' t = Some b \<and> a < b \<and> b - a \<le> 86400000"
  by (cases "start t"; cases "end' t")
     (auto simp: wf_slot_def TimeSlot_new_def isNaN_def getTime_def split: if_splits)


lemma js_gt_lt: "js_gt x y = js_lt y x"
  by (cases x; cases y) auto

lemma js_lt_trans: "js_lt x y \<Longrightarrow> js_lt y z \<Longrightarrow> js_lt x z"
  by (cases x; cases y; cases z) auto

lemma overlap_test_sym:
  "(js_lt (start t) (end' e) \<and> js_gt (end' t) (start e)) = overlaps e t"
  by (auto simp: overlaps_def getTime_def js_gt_lt)

lemma overlaps_sym: "overlaps e t = overlaps t e"
  by (auto simp: overlaps_def getTime_def js_gt_lt)

lemma wf_slot_overlaps_same_start:
  assumes "wf_slot t" and "wf_slot e" and "start e = start t"
  shows "overlaps e t"
proof -
  from wf_slotD [OF assms(1)] obtain a b where
    t: "start t = Some a" "end' t = Some b" "a < b" by blast
  from wf_slotD [OF assms(2)] obtain c d where
    e: "start e = Some c" "end' e = Some d" "c < d" by blast
  from t e assms(3) show ?thesis
    by (simp add: overlaps_def getTime_def)
qed

lemma not_overlap_not_member:
  assumes "wf_slot t" and "\<not> addTimeSlot_overlap t ts"
  shows "t \<notin> set ts"
proof
  assume "t \<in> set ts"
  moreover have "overlaps t t"
    using assms(1) by (rule wf_slot_overlaps_same_start) (rule assms(1), rule refl)
  ultimately show False
    using assms(2) by (auto simp: addTimeSlot_overlap_iff overlap_test_sym)
qed

lemma not_overlap_start_less:
  assumes "wf_slot t" and "wf_slot e" and "\<not> overlaps e t"
    and "\<not> lessThan_slot t e"
  shows "js_lt (getTime (start e)) (getTime (start t))"
proof -
  from wf_slotD [OF assms(1)] obtain a b where
    t: "start t = Some a" "end' t = Some b" "a < b" by blast
  from wf_slotD [OF assms(2)] obtain c d where
    e: "start e = Some c" "end' e = Some d" "c < d" by blast
  from assms(4) t e have "c \<le> a" by (simp add: lessThan_slot_def getTime_def)
  moreover have "c \<noteq> a"
  proof
    assume "c = a"
    with t e have "start e = start t" by simp
    with assms(1,2) have "overlaps e t" by (simp add: wf_slot_overlaps_same_start)
    with assms(3) show False by simp
  qed
  ultimately show ?thesis using t e by (simp add: getTime_def)
qed

lemma ascending_insert:
  assumes "wf_slot t" and "\<forall>e\<in>set ts. wf_slot e" and "ascending ts"
    and "\<not> addTimeSlot_overlap t ts"
  shows "ascending (takeWhile (\<lambda>e. \<not> lessThan_slot t e) ts
                      @ t # dropWhile (\<lambda>e. \<not> lessThan_slot t e) ts)"
  using assms(2-4)
proof (induction ts)
  case Nil
  show ?case by (simp add: ascending_def)
next
  case (Cons x xs)
  from Cons.prems have asc: "ascending xs"
    and above: "\<forall>y\<in>set xs. js_lt (getTime (start x)) (getTime (start y))"
    by (simp_all add: ascending_def)
  show ?case
  proof (cases "lessThan_slot t x")
    case True
    then have tx: "js_lt (getTime (start t)) (getTime (start x))"
      by (simp add: lessThan_slot_def)
    with above have "\<forall>y\<in>set xs. js_lt (getTime (start t)) (getTime (start y))"
      by (blast intro: js_lt_trans)
    with True tx Cons.prems show ?thesis by (simp add: ascending_def)
  next
    case False
    from Cons.prems have "wf_slot x" and "\<not> overlaps x t"
      by (simp_all add: addTimeSlot_overlap_iff overlap_test_sym getTime_def)
    with assms(1) False have xt: "js_lt (getTime (start x)) (getTime (start t))"
      by (simp add: not_overlap_start_less)
    from Cons.prems have "\<not> addTimeSlot_overlap t xs" and "\<forall>e\<in>set xs. wf_slot e"
      by (simp_all split: if_splits)
    with Cons.IH asc have ih: "ascending (takeWhile (\<lambda>e. \<not> lessThan_slot t e) xs
                      @ t # dropWhile (\<lambda>e. \<not> lessThan_slot t e) xs)" by simp
    have "set (takeWhile (\<lambda>e. \<not> lessThan_slot t e) xs) \<subseteq> set xs"
      and "set (dropWhile (\<lambda>e. \<not> lessThan_slot t e) xs) \<subseteq> set xs"
      by (auto dest: set_takeWhileD set_dropWhileD)
    with above xt have "\<forall>y\<in>set (takeWhile (\<lambda>e. \<not> lessThan_slot t e) xs
                      @ t # dropWhile (\<lambda>e. \<not> lessThan_slot t e) xs).
        js_lt (getTime (start x)) (getTime (start y))"
      by auto
    with False ih show ?thesis by (simp add: ascending_def)
  qed
qed

lemma non_overlapping_insert:
  assumes "non_overlapping ts" and "\<not> addTimeSlot_overlap t ts"
  shows "non_overlapping (takeWhile P ts @ t # dropWhile P ts)"
proof -
  have free: "\<forall>e\<in>set ts. \<not> overlaps e t \<and> \<not> overlaps t e"
    using assms(2) by (auto simp: addTimeSlot_overlap_iff overlap_test_sym overlaps_sym)
  have "non_overlapping (takeWhile P ts @ dropWhile P ts)"
    using assms(1) by simp
  then have parts: "non_overlapping (takeWhile P ts)" "non_overlapping (dropWhile P ts)"
    "\<forall>x\<in>set (takeWhile P ts). \<forall>y\<in>set (dropWhile P ts). \<not> overlaps x y \<and> \<not> overlaps y x"
    unfolding non_overlapping_def sorted_wrt_append by blast+
  have "set (takeWhile P ts) \<subseteq> set ts" and "set (dropWhile P ts) \<subseteq> set ts"
    by (auto dest: set_takeWhileD set_dropWhileD)
  with free have "\<forall>x\<in>set (takeWhile P ts). \<not> overlaps x t \<and> \<not> overlaps t x"
    and "\<forall>y\<in>set (dropWhile P ts). \<not> overlaps t y \<and> \<not> overlaps y t"
    by blast+
  with parts show ?thesis
    unfolding non_overlapping_def sorted_wrt_append by auto
qed

lemma sorted_wrt_remove1: "sorted_wrt R xs \<Longrightarrow> sorted_wrt R (remove1 x xs)"
proof (induction xs)
  case Nil
  then show ?case by simp
next
  case (Cons y ys)
  have "set (remove1 x ys) \<subseteq> set ys" by (rule set_remove1_subset)
  with Cons show ?case by auto
qed


lemma addTimeSlot_eq:
  "addTimeSlot now s sched =
     (if js_lt (end' s) (Some now) \<or> addTimeSlot_overlap s (timeSlots sched)
      then (False, sched)
      else (True, sched\<lparr>timeSlots :=
              takeWhile (\<lambda>e. \<not> js_lt (start s) (start e)) (timeSlots sched)
              @ s # dropWhile (\<lambda>e. \<not> js_lt (start s) (start e)) (timeSlots sched)\<rparr>))"
proof -
  have "addTimeSlot_insert 0 s (timeSlots sched) =
      takeWhile (\<lambda>e. \<not> lessThan_slot s e) (timeSlots sched)
      @ s # dropWhile (\<lambda>e. \<not> lessThan_slot s e) (timeSlots sched)"
    using addTimeSlot_insert_eq [of 0 "timeSlots sched" s] by simp
  then show ?thesis
    by (simp add: addTimeSlot_def lessThan_slot_def getTime_def)
qed

lemma removeTimeSlot_eq:
  "removeTimeSlot s sched =
     (if s \<in> set (timeSlots sched)
      then (True, sched\<lparr>timeSlots := remove1 s (timeSlots sched)\<rparr>)
      else (False, sched))"
  by (simp add: removeTimeSlot_def indexOf_absent splice_remove_indexOf)

lemma wf_slot_equals_overlaps:
  assumes "wf_slot s" and "equals s e"
  shows "overlaps e s"
proof -
  from wf_slotD [OF assms(1)] obtain a b where
    t: "start s = Some a" "end' s = Some b" "a < b" by blast
  with assms(2) show ?thesis
    by (cases "start e"; cases "end' e") (auto simp: equals_def overlaps_def getTime_def)
qed

lemma wf_slot_equals_self: "wf_slot s \<Longrightarrow> equals s s"
  by (drule wf_slotD) (auto simp: equals_def getTime_def)

lemma do_call_inv:
  assumes "schedule_inv sched" and "wf_slot (call_slot c)"
  shows "schedule_inv (do_call c sched)"
proof (cases c)
  case (AddTimeSlot now t)
  with assms(2) have wf: "wf_slot t" by simp
  show ?thesis
  proof (cases "fst (addTimeSlot now t sched)")
    case False
    then have "snd (addTimeSlot now t sched) = sched"
      by (cases "js_lt (end' t) (Some now) \<or> addTimeSlot_overlap t (timeSlots sched)")
         (simp_all add: addTimeSlot_eq)
    with assms(1) AddTimeSlot show ?thesis by simp
  next
    case True
    let ?P = "\<lambda>e. \<not> js_lt (start t) (start e)"
    let ?ts = "timeSlots sched"
    from True have free: "\<not> addTimeSlot_overlap t ?ts"
      and after: "timeSlots (snd (addTimeSlot now t sched))
                  = takeWhile ?P ?ts @ t # dropWhile ?P ?ts"
      by (simp_all add: addTimeSlot_eq split: if_splits)
    from assms(1) have old: "\<forall>e\<in>set ?ts. wf_slot e" "ascending ?ts" "non_overlapping ?ts"
      by (simp_all add: schedule_inv_def)
    have "set (takeWhile ?P ?ts @ t # dropWhile ?P ?ts) \<subseteq> insert t (set ?ts)"
      by (auto dest: set_takeWhileD set_dropWhileD)
    with old(1) wf have 1: "\<forall>e\<in>set (takeWhile ?P ?ts @ t # dropWhile ?P ?ts). wf_slot e"
      by blast
    from wf old free have "ascending (takeWhile (\<lambda>e. \<not> lessThan_slot t e) ?ts
                      @ t # dropWhile (\<lambda>e. \<not> lessThan_slot t e) ?ts)"
      by (simp add: ascending_insert)
    then have 2: "ascending (takeWhile ?P ?ts @ t # dropWhile ?P ?ts)"
      by (simp add: lessThan_slot_def getTime_def)
    from old(3) free have 3: "non_overlapping (takeWhile ?P ?ts @ t # dropWhile ?P ?ts)"
      by (rule non_overlapping_insert)
    from 1 2 3 after AddTimeSlot show ?thesis
      by (simp add: schedule_inv_def)
  qed
next
  case (RemoveTimeSlot t)
  from assms(1) have old: "\<forall>e\<in>set (timeSlots sched). wf_slot e"
    "ascending (timeSlots sched)" "non_overlapping (timeSlots sched)"
    by (simp_all add: schedule_inv_def)
  have "set (remove1 t (timeSlots sched)) \<subseteq> set (timeSlots sched)"
    by (rule set_remove1_subset)
  with old(1) have "\<forall>e\<in>set (remove1 t (timeSlots sched)). wf_slot e" by blast
  moreover from old(2) have "ascending (remove1 t (timeSlots sched))"
    unfolding ascending_def by (rule sorted_wrt_remove1)
  moreover from old(3) have "non_overlapping (remove1 t (timeSlots sched))"
    unfolding non_overlapping_def by (rule sorted_wrt_remove1)
  ultimately show ?thesis using RemoveTimeSlot assms(1)
    by (simp add: removeTimeSlot_eq schedule_inv_def)
qed

lemma run_inv:
  "schedule_inv sched \<Longrightarrow> \<forall>c\<in>set calls. wf_slot (call_slot c) \<Longrightarrow>
   schedule_inv (run calls sched)"
  by (induction calls arbitrary: sched) (simp_all add: do_call_inv)

lemma wf_slot_example:
  "a < b \<Longrightarrow> b - a \<le> 86400000 \<Longrightarrow> wf_slot \<lparr>oid = n, start = Some a, end' = Some b\<rparr>"
  by (simp add: wf_slot_def TimeSlot_new_def isNaN_def getTime_def)



lemma js_eq_not_lt: "js_eq x y \<Longrightarrow> \<not> js_lt x y \<and> \<not> js_gt x y"
  by (cases x; cases y) auto

lemma TimeSlot_new_oid: "TimeSlot_new a s e = Inr t \<Longrightarrow> oid t = a"
  by (auto simp: TimeSlot_new_def split: if_splits)

lemma nextFreeTimeSlot_loop_found:
  assumes "k \<le> i" and "i < length ts" and "js_gt (start (ts ! i)) now"
    and "\<forall>j. k \<le> j \<and> j < i \<longrightarrow> \<not> js_gt (start (ts ! j)) now"
  shows "nextFreeTimeSlot_loop k a now ts =
     (case TimeSlot_new a (if i = 0 then now else end' (ts ! (i - 1))) (start (ts ! i)) of
        Inl err \<Rightarrow> Inl err | Inr t \<Rightarrow> Inr (Some t))"
  using assms
proof (induction k a now ts rule: nextFreeTimeSlot_loop.induct)
  case (1 k a now ts)
  show ?case
  proof (cases "k = i")
    case True
    with "1.prems" show ?thesis by simp
  next
    case False
    with "1.prems" have lt: "k < i" and no: "\<not> js_gt (start (ts ! k)) now" by auto
    with "1.prems" have "nextFreeTimeSlot_loop k a now ts = nextFreeTimeSlot_loop (Suc k) a now ts"
      by simp
    moreover have "nextFreeTimeSlot_loop (Suc k) a now ts =
     (case TimeSlot_new a (if i = 0 then now else end' (ts ! (i - 1))) (start (ts ! i)) of
        Inl err \<Rightarrow> Inl err | Inr t \<Rightarrow> Inr (Some t))"
      using "1.IH" "1.prems" lt no by simp
    ultimately show ?thesis by simp
  qed
qed

lemma nextFreeTimeSlot_loop_none:
  assumes "\<forall>j. k \<le> j \<and> j < length ts \<longrightarrow> \<not> js_gt (start (ts ! j)) now"
  shows "nextFreeTimeSlot_loop k a now ts = Inr None"
  using assms
proof (induction k a now ts rule: nextFreeTimeSlot_loop.induct)
  case (1 k a now ts)
  show ?case
  proof (cases "k < length ts")
    case False
    then show ?thesis by simp
  next
    case True
    with "1.prems" have no: "\<not> js_gt (start (ts ! k)) now" by simp
    with True "1.IH" "1.prems" have "nextFreeTimeSlot_loop (Suc k) a now ts = Inr None"
      by simp
    with True no show ?thesis by simp
  qed
qed

lemma nextFreeTimeSlot_loop_oid:
  "nextFreeTimeSlot_loop k a now ts = Inr (Some r) \<Longrightarrow> oid r = a"
proof (induction k a now ts rule: nextFreeTimeSlot_loop.induct)
  case (1 k a now ts)
  have new: "\<And>s e t. TimeSlot_new a s e = Inr t \<Longrightarrow> oid t = a"
    by (auto simp: TimeSlot_new_def split: if_splits)
  show ?case
  proof (cases "k < length ts \<and> \<not> js_gt (start (ts ! k)) now")
    case True
    with "1.prems" have "nextFreeTimeSlot_loop (Suc k) a now ts = Inr (Some r)" by simp
    with True "1.IH" show ?thesis by simp
  next
    case False
    with "1.prems" new show ?thesis
      by (auto split: if_splits sum.splits)
  qed
qed

lemma first_index:
  assumes "\<exists>e\<in>set ts. P e"
  shows "\<exists>i<length ts. P (ts ! i) \<and> (\<forall>j<i. \<not> P (ts ! j))"
proof -
  from assms obtain k where k: "k < length ts \<and> P (ts ! k)"
    by (auto simp: in_set_conv_nth)
  define i where "i = (LEAST n. n < length ts \<and> P (ts ! n))"
  from k have "i < length ts \<and> P (ts ! i)"
    unfolding i_def by (rule LeastI)
  moreover have "\<forall>j<i. \<not> P (ts ! j)"
  proof (intro allI impI notI)
    fix j assume "j < i" and "P (ts ! j)"
    with \<open>i < length ts \<and> P (ts ! i)\<close> have "j < length ts \<and> P (ts ! j)" by simp
    then have "i \<le> j" unfolding i_def by (rule Least_le)
    with \<open>j < i\<close> show False by simp
  qed
  ultimately show ?thesis by blast
qed





text \<open>
  Removal by the object itself: after a successful addition of a well-formed slot,
  \<^verbatim>\<open>removeTimeSlot\<close> called with the very object that was added finds it and gives
  back the schedule from before the addition.
\<close>

lemma add_then_remove_same_object:
  assumes "wf_slot s" and "addTimeSlot now s sched = (True, sched')"
  shows "removeTimeSlot s sched' = (True, sched)"
proof -
  let ?P = "\<lambda>e. \<not> js_lt (start s) (start e)"
  let ?ts = "timeSlots sched"
  from assms(2) have free: "\<not> addTimeSlot_overlap s ?ts"
    and after: "sched' = sched\<lparr>timeSlots := takeWhile ?P ?ts @ s # dropWhile ?P ?ts\<rparr>"
    by (simp_all add: addTimeSlot_eq split: if_splits)
  from assms(1) free have "s \<notin> set ?ts" by (rule not_overlap_not_member)
  moreover have "set (takeWhile ?P ?ts) \<subseteq> set ?ts" by (auto dest: set_takeWhileD)
  ultimately have "s \<notin> set (takeWhile ?P ?ts)" by blast
  then have "remove1 s (takeWhile ?P ?ts @ s # dropWhile ?P ?ts) = ?ts"
    by (simp add: remove1_append)
  with after show ?thesis by (simp add: removeTimeSlot_eq)
qed

section \<open>Admission, removal and the invariant\<close>

text \<open>
  Claim C2. For a well-formed slot \<open>s\<close> and any schedule, \<^verbatim>\<open>addTimeSlot(s)\<close> called at the
  instant \<open>now\<close> returns false and leaves the schedule as it is when \<open>s\<close> ends strictly
  before \<open>now\<close>, or when some existing slot \<open>e\<close> passes the test
  \<^verbatim>\<open>s.start < e.end && s.end > e.start\<close>. Otherwise it returns true and \<open>s\<close> is put
  immediately before the first existing slot with a strictly greater start, at the end when
  there is none. Then \<open>s\<close> occurs exactly once in the array, as an object and also counted
  by \<^verbatim>\<open>equals\<close>, and an array of well-formed slots that was ascending by start still is.
\<close>

theorem addTimeSlot_admission:
  assumes "wf_slot s"
  shows "addTimeSlot now s sched =
      (if js_lt (end' s) (Some now)
          \<or> (\<exists>e\<in>set (timeSlots sched). js_lt (start s) (end' e) \<and> js_gt (end' s) (start e))
       then (False, sched)
       else (True, sched\<lparr>timeSlots :=
               takeWhile (\<lambda>e. \<not> js_lt (start s) (start e)) (timeSlots sched)
               @ s # dropWhile (\<lambda>e. \<not> js_lt (start s) (start e)) (timeSlots sched)\<rparr>))
    \<and> (fst (addTimeSlot now s sched) \<longrightarrow>
         count_list (timeSlots (snd (addTimeSlot now s sched))) s = 1
       \<and> length (filter (equals s) (timeSlots (snd (addTimeSlot now s sched)))) = 1
       \<and> ((\<forall>e\<in>set (timeSlots sched). wf_slot e) \<and> ascending (timeSlots sched)
            \<longrightarrow> ascending (timeSlots (snd (addTimeSlot now s sched)))))"
proof (intro conjI impI)
  show "addTimeSlot now s sched =
      (if js_lt (end' s) (Some now)
          \<or> (\<exists>e\<in>set (timeSlots sched). js_lt (start s) (end' e) \<and> js_gt (end' s) (start e))
       then (False, sched)
       else (True, sched\<lparr>timeSlots :=
               takeWhile (\<lambda>e. \<not> js_lt (start s) (start e)) (timeSlots sched)
               @ s # dropWhile (\<lambda>e. \<not> js_lt (start s) (start e)) (timeSlots sched)\<rparr>))"
    by (simp only: addTimeSlot_eq addTimeSlot_overlap_iff)
next
  let ?P = "\<lambda>e. \<not> js_lt (start s) (start e)"
  let ?ts = "timeSlots sched"
  assume "fst (addTimeSlot now s sched)"
  then have free: "\<not> addTimeSlot_overlap s ?ts"
    and after: "timeSlots (snd (addTimeSlot now s sched))
                  = takeWhile ?P ?ts @ s # dropWhile ?P ?ts"
    by (simp_all add: addTimeSlot_eq split: if_splits)
  have sub: "set (takeWhile ?P ?ts) \<subseteq> set ?ts" "set (dropWhile ?P ?ts) \<subseteq> set ?ts"
    by (auto dest: set_takeWhileD set_dropWhileD)
  from assms free have "s \<notin> set ?ts" by (rule not_overlap_not_member)
  with sub have "count_list (takeWhile ?P ?ts) s = 0" "count_list (dropWhile ?P ?ts) s = 0"
    by (auto simp: count_list_0_iff)
  with after show "count_list (timeSlots (snd (addTimeSlot now s sched))) s = 1"
    by simp
  have "\<forall>e\<in>set ?ts. \<not> equals s e"
    using free wf_slot_equals_overlaps [OF assms]
    by (auto simp: addTimeSlot_overlap_iff overlap_test_sym)
  with sub have "filter (equals s) (takeWhile ?P ?ts) = []"
    "filter (equals s) (dropWhile ?P ?ts) = []"
    by (auto simp: filter_empty_conv)
  with after wf_slot_equals_self [OF assms]
  show "length (filter (equals s) (timeSlots (snd (addTimeSlot now s sched)))) = 1"
    by simp
  assume "(\<forall>e\<in>set ?ts. wf_slot e) \<and> ascending ?ts"
  with assms free have "ascending (takeWhile (\<lambda>e. \<not> lessThan_slot s e) ?ts
                      @ s # dropWhile (\<lambda>e. \<not> lessThan_slot s e) ?ts)"
    by (simp add: ascending_insert)
  with after show "ascending (timeSlots (snd (addTimeSlot now s sched)))"
    by (simp add: lessThan_slot_def getTime_def)
qed

theorem addTimeSlot_admission_witness:
  "wf_slot \<lparr>oid = 2, start = Some 10, end' = Some 20\<rparr>
   \<and> addTimeSlot 5 \<lparr>oid = 2, start = Some 10, end' = Some 20\<rparr>
        \<lparr>timeSlots = [\<lparr>oid = 1, start = Some 30, end' = Some 40\<rparr>]\<rparr>
     = (True, \<lparr>timeSlots = [\<lparr>oid = 2, start = Some 10, end' = Some 20\<rparr>,
                              \<lparr>oid = 1, start = Some 30, end' = Some 40\<rparr>]\<rparr>)
   \<and> addTimeSlot 5 \<lparr>oid = 2, start = Some 10, end' = Some 35\<rparr>
        \<lparr>timeSlots = [\<lparr>oid = 1, start = Some 30, end' = Some 40\<rparr>]\<rparr>
     = (False, \<lparr>timeSlots = [\<lparr>oid = 1, start = Some 30, end' = Some 40\<rparr>]\<rparr>)
   \<and> count_list [\<lparr>oid = 2, start = Some 10, end' = Some 20\<rparr>,
                  \<lparr>oid = 1, start = Some 30, end' = Some 40\<rparr>]
        \<lparr>oid = 2, start = Some 10, end' = Some 20\<rparr> = 1
   \<and> ascending [\<lparr>oid = 2, start = Some 10, end' = Some 20\<rparr>,
                \<lparr>oid = 1, start = Some 30, end' = Some 40\<rparr>]"
proof -
  have w1: "wf_slot \<lparr>oid = 2, start = Some 10, end' = Some 20\<rparr>"
    by (simp add: wf_slot_example)
  have w2: "wf_slot \<lparr>oid = 2, start = Some 10, end' = Some 35\<rparr>"
    by (simp add: wf_slot_example)
  show ?thesis
    using w1
      addTimeSlot_admission [OF w1, of 5
        "\<lparr>timeSlots = [\<lparr>oid = 1, start = Some 30, end' = Some 40\<rparr>]\<rparr>"]
      addTimeSlot_admission [OF w2, of 5
        "\<lparr>timeSlots = [\<lparr>oid = 1, start = Some 30, end' = Some 40\<rparr>]\<rparr>"]
    by (simp add: ascending_def getTime_def)
qed

text \<open>
  Claim C9. A candidate \<open>s\<close> that is exactly adjacent to a slot \<open>e\<close> of the schedule
  (\<^verbatim>\<open>s.start === e.end\<close> or \<^verbatim>\<open>s.end === e.start\<close> on the time values) does not overlap
  \<open>e\<close>, in either order of the test. If \<open>s\<close> is admissible otherwise (it does not end before
  the instant of the call and passes the test against no other slot of the schedule),
  \<^verbatim>\<open>addTimeSlot(s)\<close> returns true, and afterwards the schedule holds both \<open>e\<close> and \<open>s\<close>.
\<close>

theorem adjacent_slot_admitted:
  assumes "e \<in> set (timeSlots sched)"
    and "js_eq (start s) (end' e) \<or> js_eq (end' s) (start e)"
    and "\<not> js_lt (end' s) (Some now)"
    and "\<forall>x\<in>set (timeSlots sched). x \<noteq> e \<longrightarrow>
           \<not> (js_lt (start s) (end' x) \<and> js_gt (end' s) (start x))"
  shows "\<not> overlaps s e \<and> \<not> overlaps e s
       \<and> fst (addTimeSlot now s sched)
       \<and> e \<in> set (timeSlots (snd (addTimeSlot now s sched)))
       \<and> s \<in> set (timeSlots (snd (addTimeSlot now s sched)))"
proof -
  let ?P = "\<lambda>x. \<not> js_lt (start s) (start x)"
  let ?ts = "timeSlots sched"
  from assms(2) have apart: "\<not> (js_lt (start s) (end' e) \<and> js_gt (end' s) (start e))"
    by (auto dest: js_eq_not_lt)
  then have no: "\<not> overlaps s e" "\<not> overlaps e s"
    by (simp_all add: overlap_test_sym overlaps_sym)
  from apart assms(4) have "\<not> addTimeSlot_overlap s ?ts"
    by (auto simp: addTimeSlot_overlap_iff)
  with assms(3) have res: "addTimeSlot now s sched =
      (True, sched\<lparr>timeSlots := takeWhile ?P ?ts @ s # dropWhile ?P ?ts\<rparr>)"
    by (simp add: addTimeSlot_eq)
  have "set (takeWhile ?P ?ts @ dropWhile ?P ?ts) = set ?ts"
    by (simp only: takeWhile_dropWhile_id)
  then have "set (takeWhile ?P ?ts) \<union> set (dropWhile ?P ?ts) = set ?ts"
    by (simp only: set_append)
  then have "set (takeWhile ?P ?ts @ s # dropWhile ?P ?ts) = insert s (set ?ts)"
    by auto
  with res have "set (timeSlots (snd (addTimeSlot now s sched))) = insert s (set ?ts)"
    by simp
  with assms(1) no res show ?thesis by simp
qed

theorem adjacent_slot_admitted_witness:
  "\<lparr>oid = 1, start = Some 100, end' = Some 200\<rparr>
      \<in> set (timeSlots \<lparr>timeSlots = [\<lparr>oid = 1, start = Some 100, end' = Some 200\<rparr>]\<rparr>)
   \<and> js_eq (start \<lparr>oid = 2, start = Some 200, end' = Some 300\<rparr>)
           (end' \<lparr>oid = 1, start = Some 100, end' = Some 200\<rparr>)
   \<and> \<not> js_lt (end' \<lparr>oid = 2, start = Some 200, end' = Some 300\<rparr>) (Some 50)
   \<and> addTimeSlot 50 \<lparr>oid = 2, start = Some 200, end' = Some 300\<rparr>
        \<lparr>timeSlots = [\<lparr>oid = 1, start = Some 100, end' = Some 200\<rparr>]\<rparr>
      = (True, \<lparr>timeSlots = [\<lparr>oid = 1, start = Some 100, end' = Some 200\<rparr>,
                               \<lparr>oid = 2, start = Some 200, end' = Some 300\<rparr>]\<rparr>)
   \<and> fst (addTimeSlot 50 \<lparr>oid = 3, start = Some 60, end' = Some 100\<rparr>
        \<lparr>timeSlots = [\<lparr>oid = 1, start = Some 100, end' = Some 200\<rparr>]\<rparr>)"
proof -
  let ?e = "\<lparr>oid = 1, start = Some 100, end' = Some 200\<rparr>"
  let ?s = "\<lparr>oid = 2, start = Some 200, end' = Some 300\<rparr>"
  let ?s' = "\<lparr>oid = 3, start = Some 60, end' = Some 100\<rparr>"
  let ?sched = "\<lparr>timeSlots = [?e]\<rparr>"
  have 1: "?e \<in> set (timeSlots ?sched)" by simp
  have 2: "js_eq (start ?s) (end' ?e) \<or> js_eq (end' ?s) (start ?e)" by simp
  have b2: "js_eq (start ?s') (end' ?e) \<or> js_eq (end' ?s') (start ?e)" by simp
  have 3: "\<not> js_lt (end' ?s) (Some 50)" by simp
  have b3: "\<not> js_lt (end' ?s') (Some 50)" by simp
  have 4: "\<forall>x\<in>set (timeSlots ?sched). x \<noteq> ?e \<longrightarrow>
           \<not> (js_lt (start ?s) (end' x) \<and> js_gt (end' ?s) (start x))" by simp
  have b4: "\<forall>x\<in>set (timeSlots ?sched). x \<noteq> ?e \<longrightarrow>
           \<not> (js_lt (start ?s') (end' x) \<and> js_gt (end' ?s') (start x))" by simp
  have 5: "addTimeSlot 50 ?s ?sched = (True, \<lparr>timeSlots = [?e, ?s]\<rparr>)"
    using adjacent_slot_admitted [OF 1 2 3 4]
    by (simp add: addTimeSlot_eq addTimeSlot_overlap_iff)
  have 6: "fst (addTimeSlot 50 ?s' ?sched)"
    using adjacent_slot_admitted [OF 1 b2 b3 b4] by blast
  from 1 2 3 5 6 show ?thesis by simp
qed

text \<open>
  Claim C3. Start from the empty schedule and make any sequence of \<^verbatim>\<open>addTimeSlot\<close> and
  \<^verbatim>\<open>removeTimeSlot\<close> calls, each with a well-formed slot, the additions at any instants.
  After every call of the sequence (after the first \<open>n\<close> calls, for every \<open>n\<close>) the array
  is strictly ascending by start and no two of its elements overlap.
\<close>

theorem schedule_always_ascending_non_overlapping:
  assumes "\<forall>c\<in>set calls. wf_slot (call_slot c)" and "n \<le> length calls"
  shows "ascending (timeSlots (run (take n calls) Schedule_new))
       \<and> non_overlapping (timeSlots (run (take n calls) Schedule_new))"
proof -
  have "schedule_inv Schedule_new"
    by (simp add: schedule_inv_def Schedule_new_def ascending_def non_overlapping_def)
  moreover have "\<forall>c\<in>set (take n calls). wf_slot (call_slot c)"
    using assms(1) by (auto dest: in_set_takeD)
  ultimately have "schedule_inv (run (take n calls) Schedule_new)" by (rule run_inv)
  then show ?thesis by (simp add: schedule_inv_def)
qed

theorem schedule_always_ascending_non_overlapping_witness:
  "wf_slot (call_slot (AddTimeSlot 5 \<lparr>oid = 1, start = Some 30, end' = Some 40\<rparr>))
   \<and> wf_slot (call_slot (AddTimeSlot 6 \<lparr>oid = 2, start = Some 10, end' = Some 20\<rparr>))
   \<and> wf_slot (call_slot (RemoveTimeSlot \<lparr>oid = 1, start = Some 30, end' = Some 40\<rparr>))
   \<and> (2::nat) \<le> length [AddTimeSlot 5 \<lparr>oid = 1, start = Some 30, end' = Some 40\<rparr>,
               AddTimeSlot 6 \<lparr>oid = 2, start = Some 10, end' = Some 20\<rparr>,
               RemoveTimeSlot \<lparr>oid = 1, start = Some 30, end' = Some 40\<rparr>]
   \<and> ascending (timeSlots (run (take 2
              [AddTimeSlot 5 \<lparr>oid = 1, start = Some 30, end' = Some 40\<rparr>,
               AddTimeSlot 6 \<lparr>oid = 2, start = Some 10, end' = Some 20\<rparr>,
               RemoveTimeSlot \<lparr>oid = 1, start = Some 30, end' = Some 40\<rparr>]) Schedule_new))
   \<and> non_overlapping (timeSlots (run (take 2
              [AddTimeSlot 5 \<lparr>oid = 1, start = Some 30, end' = Some 40\<rparr>,
               AddTimeSlot 6 \<lparr>oid = 2, start = Some 10, end' = Some 20\<rparr>,
               RemoveTimeSlot \<lparr>oid = 1, start = Some 30, end' = Some 40\<rparr>]) Schedule_new))"
proof -
  have w1: "wf_slot (call_slot (AddTimeSlot 5 \<lparr>oid = 1, start = Some 30, end' = Some 40\<rparr>))"
    and w2: "wf_slot (call_slot (AddTimeSlot 6 \<lparr>oid = 2, start = Some 10, end' = Some 20\<rparr>))"
    and w3: "wf_slot (call_slot (RemoveTimeSlot \<lparr>oid = 1, start = Some 30, end' = Some 40\<rparr>))"
    by (simp_all add: wf_slot_example)
  then have w: "\<forall>c\<in>set [AddTimeSlot 5 \<lparr>oid = 1, start = Some 30, end' = Some 40\<rparr>,
               AddTimeSlot 6 \<lparr>oid = 2, start = Some 10, end' = Some 20\<rparr>,
               RemoveTimeSlot \<lparr>oid = 1, start = Some 30, end' = Some 40\<rparr>].
      wf_slot (call_slot c)"
    by simp
  have n: "(2::nat) \<le> length [AddTimeSlot 5 \<lparr>oid = 1, start = Some 30, end' = Some 40\<rparr>,
               AddTimeSlot 6 \<lparr>oid = 2, start = Some 10, end' = Some 20\<rparr>,
               RemoveTimeSlot \<lparr>oid = 1, start = Some 30, end' = Some 40\<rparr>]"
    by simp
  from w1 w2 w3 n schedule_always_ascending_non_overlapping [OF w n] show ?thesis
    by blast
qed

text \<open>
  Claim C4, at the input where the code departs from it. The schedule holds the slot
  [30, 40). At the instant 5, \<^verbatim>\<open>addTimeSlot\<close> is given the slot [10, 20), the object at
  address 2: it returns true and the slot is put first. Right after, \<^verbatim>\<open>removeTimeSlot\<close> is
  called with the same slot value, [10, 20), held by another object, at address 3:
  \<^verbatim>\<open>equals\<close> is true of the two, yet \<^verbatim>\<open>indexOf\<close> compares object identities, so the method
  returns false and the schedule keeps the added slot: it is not the schedule from
  before the addition. This is the lookup by identity of claim C1.
\<close>

theorem add_then_remove_equal_value_not_restored:
  "addTimeSlot 5 \<lparr>oid = 2, start = Some 10, end' = Some 20\<rparr>
        \<lparr>timeSlots = [\<lparr>oid = 1, start = Some 30, end' = Some 40\<rparr>]\<rparr>
     = (True, \<lparr>timeSlots = [\<lparr>oid = 2, start = Some 10, end' = Some 20\<rparr>,
                              \<lparr>oid = 1, start = Some 30, end' = Some 40\<rparr>]\<rparr>)
   \<and> equals \<lparr>oid = 3, start = Some 10, end' = Some 20\<rparr>
            \<lparr>oid = 2, start = Some 10, end' = Some 20\<rparr>
   \<and> removeTimeSlot \<lparr>oid = 3, start = Some 10, end' = Some 20\<rparr>
        \<lparr>timeSlots = [\<lparr>oid = 2, start = Some 10, end' = Some 20\<rparr>,
                      \<lparr>oid = 1, start = Some 30, end' = Some 40\<rparr>]\<rparr>
     = (False, \<lparr>timeSlots = [\<lparr>oid = 2, start = Some 10, end' = Some 20\<rparr>,
                               \<lparr>oid = 1, start = Some 30, end' = Some 40\<rparr>]\<rparr>)
   \<and> snd (removeTimeSlot \<lparr>oid = 3, start = Some 10, end' = Some 20\<rparr>
        \<lparr>timeSlots = [\<lparr>oid = 2, start = Some 10, end' = Some 20\<rparr>,
                      \<lparr>oid = 1, start = Some 30, end' = Some 40\<rparr>]\<rparr>)
     \<noteq> \<lparr>timeSlots = [\<lparr>oid = 1, start = Some 30, end' = Some 40\<rparr>]\<rparr>"
  by (simp add: addTimeSlot_eq removeTimeSlot_eq equals_def getTime_def)

text \<open>
  Claim C1, at the input where the code departs from it. The schedule holds one slot
  [10, 20), the object at address 1. \<^verbatim>\<open>removeTimeSlot\<close> is called with another object,
  at address 2, built independently with the same endpoints: \<^verbatim>\<open>equals\<close> is true of the two,
  yet \<^verbatim>\<open>indexOf\<close> compares object identities, finds nothing, and the method returns false
  and leaves the slot in the schedule.
\<close>

theorem removeTimeSlot_value_equal_slot_not_removed:
  "equals \<lparr>oid = 2, start = Some 10, end' = Some 20\<rparr>
          \<lparr>oid = 1, start = Some 10, end' = Some 20\<rparr>
   \<and> removeTimeSlot \<lparr>oid = 2, start = Some 10, end' = Some 20\<rparr>
        \<lparr>timeSlots = [\<lparr>oid = 1, start = Some 10, end' = Some 20\<rparr>]\<rparr>
     = (False, \<lparr>timeSlots = [\<lparr>oid = 1, start = Some 10, end' = Some 20\<rparr>]\<rparr>)"
  by (simp add: equals_def getTime_def removeTimeSlot_def)

section \<open>Construction of a time slot\<close>

text \<open>
  Claim C7. The constructor throws when a timestamp is not a valid instant (the spec's
  InvalidTimeError: the message names the start, or else the end), when the start is not
  strictly before the end (OrderingError), in particular for equal timestamps, and when the
  end is more than 24 hours = 86400000 ms after the start (DurationError), in particular
  one millisecond more. With a length of exactly 24 hours, and with any length above zero
  up to that, it returns the object holding the two given timestamps; the object is a
  value of the model, which no operation changes.
\<close>

theorem TimeSlot_new_construction:
  "(s = None \<longrightarrow> TimeSlot_new a s e = Inl (Error ''The start time is not valid.''))
   \<and> (s \<noteq> None \<and> e = None \<longrightarrow>
         TimeSlot_new a s e = Inl (Error ''The end time is not valid.''))
   \<and> (y \<le> x \<longrightarrow> TimeSlot_new a (Some x) (Some y)
         = Inl (Error ''The start time must be before the end time.''))
   \<and> TimeSlot_new a (Some x) (Some x)
         = Inl (Error ''The start time must be before the end time.'')
   \<and> (86400000 < y - x \<longrightarrow> TimeSlot_new a (Some x) (Some y)
         = Inl (Error ''The time slot cannot be longer than 24 hours.''))
   \<and> TimeSlot_new a (Some x) (Some (x + 86400001))
         = Inl (Error ''The time slot cannot be longer than 24 hours.'')
   \<and> (x < y \<and> y - x \<le> 86400000 \<longrightarrow> TimeSlot_new a (Some x) (Some y)
         = Inr \<lparr>oid = a, start = Some x, end' = Some y\<rparr>)
   \<and> TimeSlot_new a (Some x) (Some (x + 86400000))
         = Inr \<lparr>oid = a, start = Some x, end' = Some (x + 86400000)\<rparr>"
  by (cases s; cases e) (simp_all add: TimeSlot_new_def isNaN_def getTime_def)

theorem TimeSlot_new_construction_witness:
  "TimeSlot_new 7 None (Some 5) = Inl (Error ''The start time is not valid.'')
   \<and> TimeSlot_new 7 (Some 5) None = Inl (Error ''The end time is not valid.'')
   \<and> TimeSlot_new 7 (Some 5) (Some 3)
       = Inl (Error ''The start time must be before the end time.'')
   \<and> TimeSlot_new 7 (Some 0) (Some 86400002)
       = Inl (Error ''The time slot cannot be longer than 24 hours.'')
   \<and> TimeSlot_new 7 (Some 3) (Some 5) = Inr \<lparr>oid = 7, start = Some 3, end' = Some 5\<rparr>"
proof -
  have 1: "TimeSlot_new 7 None (Some 5) = Inl (Error ''The start time is not valid.'')"
    using TimeSlot_new_construction [where s = None and e = "Some 5" and a = 7] by simp
  have 2: "TimeSlot_new 7 (Some 5) None = Inl (Error ''The end time is not valid.'')"
    using TimeSlot_new_construction [where s = "Some 5" and e = None and a = 7] by simp
  have 3: "TimeSlot_new 7 (Some 5) (Some 3)
       = Inl (Error ''The start time must be before the end time.'')"
    using TimeSlot_new_construction [where a = 7 and x = 5 and y = 3] by simp
  have 4: "TimeSlot_new 7 (Some 0) (Some 86400002)
       = Inl (Error ''The time slot cannot be longer than 24 hours.'')"
    using TimeSlot_new_construction [where a = 7 and x = 0 and y = 86400002] by simp
  have 5: "TimeSlot_new 7 (Some 3) (Some 5) = Inr \<lparr>oid = 7, start = Some 3, end' = Some 5\<rparr>"
    using TimeSlot_new_construction [where a = 7 and x = 3 and y = 5] by simp
  from 1 2 3 4 5 show ?thesis by simp
qed

section \<open>Queries\<close>

text \<open>
  Claim C5. When some slot of the schedule starts strictly after the instant of the call,
  \<^verbatim>\<open>nextFreeTimeSlot\<close> takes the first index \<open>i\<close> whose slot does, and its outcome is the
  outcome of \<^verbatim>\<open>new TimeSlot(from, timeSlots[i].start)\<close>, where \<open>from\<close> is the end of slot
  \<open>i - 1\<close> when \<open>i > 0\<close> and the instant of the call otherwise: the new slot when the
  constructor returns, the constructor's exception when it throws. In particular the
  method throws when the previous slot ends exactly where slot \<open>i\<close> starts (a gap of length
  zero), and when the gap is longer than 24 hours.
\<close>

theorem nextFreeTimeSlot_gap_or_exception:
  assumes "\<exists>e\<in>set (timeSlots sched). js_gt (start e) (Some now)"
  shows "\<exists>i<length (timeSlots sched).
      js_gt (start (timeSlots sched ! i)) (Some now)
      \<and> (\<forall>j<i. \<not> js_gt (start (timeSlots sched ! j)) (Some now))
      \<and> fst (nextFreeTimeSlot a now sched) =
          (case TimeSlot_new a (if i = 0 then Some now else end' (timeSlots sched ! (i - 1)))
                  (start (timeSlots sched ! i)) of
             Inl err \<Rightarrow> Inl err
           | Inr nextTimeSlot \<Rightarrow> Inr (Some nextTimeSlot))
      \<and> (0 < i \<and> js_eq (end' (timeSlots sched ! (i - 1))) (start (timeSlots sched ! i)) \<longrightarrow>
           fst (nextFreeTimeSlot a now sched)
             = Inl (Error ''The start time must be before the end time.''))
      \<and> (js_gt (js_sub (start (timeSlots sched ! i))
                   (if i = 0 then Some now else end' (timeSlots sched ! (i - 1))))
                (Some 86400000) \<longrightarrow>
           fst (nextFreeTimeSlot a now sched)
             = Inl (Error ''The time slot cannot be longer than 24 hours.''))"
proof -
  let ?ts = "timeSlots sched"
  from first_index [of ?ts "\<lambda>e. js_gt (start e) (Some now)", OF assms]
  obtain i where i: "i < length ?ts" "js_gt (start (?ts ! i)) (Some now)"
    "\<forall>j<i. \<not> js_gt (start (?ts ! j)) (Some now)" by blast
  let ?from = "if i = 0 then Some now else end' (?ts ! (i - 1))"
  have res: "fst (nextFreeTimeSlot a now sched) =
          (case TimeSlot_new a ?from (start (?ts ! i)) of
             Inl err \<Rightarrow> Inl err | Inr nextTimeSlot \<Rightarrow> Inr (Some nextTimeSlot))"
    using nextFreeTimeSlot_loop_found [of 0 i ?ts "Some now" a] i
    by (simp add: nextFreeTimeSlot_def)
  have zero: "fst (nextFreeTimeSlot a now sched)
             = Inl (Error ''The start time must be before the end time.'')"
    if "0 < i \<and> js_eq (end' (?ts ! (i - 1))) (start (?ts ! i))"
    using that unfolding res
    by (cases "end' (?ts ! (i - 1))"; cases "start (?ts ! i)")
       (simp_all add: TimeSlot_new_def isNaN_def getTime_def)
  have long: "fst (nextFreeTimeSlot a now sched)
             = Inl (Error ''The time slot cannot be longer than 24 hours.'')"
    if "js_gt (js_sub (start (?ts ! i)) ?from) (Some 86400000)"
    using that unfolding res
    by (cases ?from; cases "start (?ts ! i)")
       (simp_all add: TimeSlot_new_def isNaN_def getTime_def)
  from i res zero long show ?thesis by blast
qed

theorem nextFreeTimeSlot_gap_or_exception_witness:
  "fst (nextFreeTimeSlot 9 50
          \<lparr>timeSlots = [\<lparr>oid = 1, start = Some 0, end' = Some 100\<rparr>,
                        \<lparr>oid = 2, start = Some 100, end' = Some 200\<rparr>]\<rparr>)
     = Inl (Error ''The start time must be before the end time.'')
   \<and> fst (nextFreeTimeSlot 9 50
          \<lparr>timeSlots = [\<lparr>oid = 1, start = Some 0, end' = Some 100\<rparr>,
                        \<lparr>oid = 2, start = Some 150, end' = Some 200\<rparr>]\<rparr>)
     = Inr (Some \<lparr>oid = 9, start = Some 100, end' = Some 150\<rparr>)"
proof -
  let ?s1 = "\<lparr>timeSlots = [\<lparr>oid = 1, start = Some 0, end' = Some 100\<rparr>,
                        \<lparr>oid = 2, start = Some 100, end' = Some 200\<rparr>]\<rparr>"
  let ?s2 = "\<lparr>timeSlots = [\<lparr>oid = 1, start = Some 0, end' = Some 100\<rparr>,
                        \<lparr>oid = 2, start = Some 150, end' = Some 200\<rparr>]\<rparr>"
  have h1: "\<exists>e\<in>set (timeSlots ?s1). js_gt (start e) (Some 50)" by simp
  have h2: "\<exists>e\<in>set (timeSlots ?s2). js_gt (start e) (Some 50)" by simp
  from nextFreeTimeSlot_gap_or_exception [OF h1, of 9]
  obtain i where i: "i < length (timeSlots ?s1)"
      "js_gt (start (timeSlots ?s1 ! i)) (Some 50)"
    and r: "0 < i \<and> js_eq (end' (timeSlots ?s1 ! (i - 1))) (start (timeSlots ?s1 ! i)) \<longrightarrow>
           fst (nextFreeTimeSlot 9 50 ?s1)
             = Inl (Error ''The start time must be before the end time.'')"
    by blast
  from i have "i = 1" by (cases i) auto
  with r have 1: "fst (nextFreeTimeSlot 9 50 ?s1)
             = Inl (Error ''The start time must be before the end time.'')" by simp
  from nextFreeTimeSlot_gap_or_exception [OF h2, of 9]
  obtain k where k: "k < length (timeSlots ?s2)"
      "js_gt (start (timeSlots ?s2 ! k)) (Some 50)"
    and q: "fst (nextFreeTimeSlot 9 50 ?s2) =
          (case TimeSlot_new 9 (if k = 0 then Some 50 else end' (timeSlots ?s2 ! (k - 1)))
                  (start (timeSlots ?s2 ! k)) of
             Inl err \<Rightarrow> Inl err
           | Inr nextTimeSlot \<Rightarrow> Inr (Some nextTimeSlot))"
    by blast
  from k have "k = 1" by (cases k) auto
  with q have 2: "fst (nextFreeTimeSlot 9 50 ?s2)
     = Inr (Some \<lparr>oid = 9, start = Some 100, end' = Some 150\<rparr>)"
    by (simp add: TimeSlot_new_def isNaN_def getTime_def)
  from 1 2 show ?thesis by simp
qed

text \<open>
  Claim C6. When no slot of the schedule starts strictly after the instant of the call,
  \<^verbatim>\<open>nextFreeTimeSlot\<close> returns \<^verbatim>\<open>null\<close> and the schedule is as before. The empty schedule is
  such a schedule, and so is one whose only slot is in progress (it contains the instant
  of the call), although the resource is free once that slot has ended.
\<close>

theorem nextFreeTimeSlot_none:
  assumes "\<forall>e\<in>set (timeSlots sched). \<not> js_gt (start e) (Some now)"
  shows "nextFreeTimeSlot a now sched = (Inr None, sched)"
  using assms nextFreeTimeSlot_loop_none [of 0 "timeSlots sched" "Some now" a]
  by (simp add: nextFreeTimeSlot_def)

theorem nextFreeTimeSlot_none_witness:
  "nextFreeTimeSlot 9 50 \<lparr>timeSlots = []\<rparr> = (Inr None, \<lparr>timeSlots = []\<rparr>)
   \<and> contains \<lparr>oid = 1, start = Some 0, end' = Some 100\<rparr> (Some 50)
   \<and> nextFreeTimeSlot 9 50 \<lparr>timeSlots = [\<lparr>oid = 1, start = Some 0, end' = Some 100\<rparr>]\<rparr>
       = (Inr None, \<lparr>timeSlots = [\<lparr>oid = 1, start = Some 0, end' = Some 100\<rparr>]\<rparr>)"
  using nextFreeTimeSlot_none [of "\<lparr>timeSlots = []\<rparr>" 50 9]
    nextFreeTimeSlot_none [of "\<lparr>timeSlots = [\<lparr>oid = 1, start = Some 0, end' = Some 100\<rparr>]\<rparr>" 50 9]
  by (simp add: contains_def getTime_def)



text \<open>
  Claim C10. The four queries \<^verbatim>\<open>isFree\<close>, \<^verbatim>\<open>isBusy\<close>, \<^verbatim>\<open>nextBusyTimeSlot\<close> and
  \<^verbatim>\<open>nextFreeTimeSlot\<close> return the schedule as they found it, for every schedule and every
  argument. The slot that \<^verbatim>\<open>nextFreeTimeSlot\<close> constructs, at a fresh address \<open>a\<close> (one that no
  slot of the schedule has), goes to the caller and is not an element of the schedule
  after the call.
\<close>

theorem queries_leave_timeSlots_unchanged:
  "snd (isFree t sched) = sched
   \<and> snd (isBusy now sched) = sched
   \<and> snd (nextBusyTimeSlot clock sched) = sched
   \<and> snd (nextFreeTimeSlot a now sched) = sched
   \<and> ((\<forall>e\<in>set (timeSlots sched). oid e \<noteq> a) \<longrightarrow>
        (\<forall>r. fst (nextFreeTimeSlot a now sched) = Inr (Some r) \<longrightarrow>
             r \<notin> set (timeSlots (snd (nextFreeTimeSlot a now sched)))))"
proof (intro conjI impI allI)
  show "snd (isFree t sched) = sched" by (simp add: isFree_def)
  show "snd (isBusy now sched) = sched" by (simp add: isBusy_def)
  show "snd (nextBusyTimeSlot clock sched) = sched" by (simp add: nextBusyTimeSlot_def)
  show "snd (nextFreeTimeSlot a now sched) = sched" by (simp add: nextFreeTimeSlot_def)
next
  fix r
  assume fresh: "\<forall>e\<in>set (timeSlots sched). oid e \<noteq> a"
    and "fst (nextFreeTimeSlot a now sched) = Inr (Some r)"
  then have "nextFreeTimeSlot_loop 0 a (Some now) (timeSlots sched) = Inr (Some r)"
    by (simp add: nextFreeTimeSlot_def)
  then have "oid r = a" by (rule nextFreeTimeSlot_loop_oid)
  with fresh have "r \<notin> set (timeSlots sched)" by blast
  then show "r \<notin> set (timeSlots (snd (nextFreeTimeSlot a now sched)))"
    by (simp add: nextFreeTimeSlot_def)
qed

theorem queries_leave_timeSlots_unchanged_witness:
  "fst (nextFreeTimeSlot 9 50
          \<lparr>timeSlots = [\<lparr>oid = 1, start = Some 0, end' = Some 100\<rparr>,
                        \<lparr>oid = 2, start = Some 150, end' = Some 200\<rparr>]\<rparr>)
     = Inr (Some \<lparr>oid = 9, start = Some 100, end' = Some 150\<rparr>)
   \<and> snd (nextFreeTimeSlot 9 50
          \<lparr>timeSlots = [\<lparr>oid = 1, start = Some 0, end' = Some 100\<rparr>,
                        \<lparr>oid = 2, start = Some 150, end' = Some 200\<rparr>]\<rparr>)
     = \<lparr>timeSlots = [\<lparr>oid = 1, start = Some 0, end' = Some 100\<rparr>,
                        \<lparr>oid = 2, start = Some 150, end' = Some 200\<rparr>]\<rparr>
   \<and> \<lparr>oid = 9, start = Some 100, end' = Some 150\<rparr> \<notin> set (timeSlots (snd (nextFreeTimeSlot 9 50
          \<lparr>timeSlots = [\<lparr>oid = 1, start = Some 0, end' = Some 100\<rparr>,
                        \<lparr>oid = 2, start = Some 150, end' = Some 200\<rparr>]\<rparr>)))"
proof -
  let ?s = "\<lparr>timeSlots = [\<lparr>oid = 1, start = Some 0, end' = Some 100\<rparr>,
                        \<lparr>oid = 2, start = Some 150, end' = Some 200\<rparr>]\<rparr>"
  have f: "\<forall>e\<in>set (timeSlots ?s). oid e \<noteq> 9" by simp
  have r: "fst (nextFreeTimeSlot 9 50 ?s)
     = Inr (Some \<lparr>oid = 9, start = Some 100, end' = Some 150\<rparr>)"
    by (simp add: nextFreeTimeSlot_def TimeSlot_new_def isNaN_def getTime_def)
  from queries_leave_timeSlots_unchanged [where sched = ?s and now = 50 and a = 9] f r show ?thesis by blast
qed

end
